theory Spec2Isabelle
  imports Complex_Main "HOL-Library.Word"
begin

section \<open>Strings and component state\<close>

text \<open>
  A JavaScript string is a sequence of UTF-16 code units. \<open>split('')\<close>, \<open>substring\<close>,
  \<open>length\<close> and a regular expression without the \<open>u\<close> flag all work on code units, so a
  string is a list of 16-bit words. The bullet glyph U+2022 is one code unit.
\<close>

type_synonym jschar = "16 word"
type_synonym jsstring = "jschar list"

definition js :: "string \<Rightarrow> jsstring" where
  \<comment> \<open>an ASCII literal of the source as code units\<close>
  "js s = map of_char s"

text \<open>
  The four \<open>useState\<close> cells of \<open>App\<close> (App.tsx lines 5-8). A handler reads the values of
  the render it was created in and schedules new ones; one handler call is a function from
  the state before to the state after.
\<close>

record editor =
  text_s :: jsstring
  isRevealed :: bool
  undoStack :: "jsstring list"
  redoStack :: "jsstring list"

definition init :: editor where
  \<comment> \<open>useState(''), useState(false), useState([]), useState([])\<close>
  "init = \<lparr> text_s = [], isRevealed = False, undoStack = [], redoStack = [] \<rparr>"

section \<open>History handlers\<close>

definition handleTextChange :: "jsstring \<Rightarrow> editor \<Rightarrow> editor" where
  \<comment> \<open>lines 35-39; the argument is \<open>e.target.value\<close>\<close>
  "handleTextChange v s =
     s\<lparr> undoStack := text_s s # undoStack s, redoStack := [], text_s := v \<rparr>"

definition handleUndo :: "editor \<Rightarrow> editor" where
  \<comment> \<open>lines 41-49\<close>
  "handleUndo s =
     (case undoStack s of
        [] \<Rightarrow> s
      | previousText # newUndoStack \<Rightarrow>
          s\<lparr> redoStack := text_s s # redoStack s,
             undoStack := newUndoStack,
             text_s := previousText \<rparr>)"

definition handleRedo :: "editor \<Rightarrow> editor" where
  \<comment> \<open>lines 51-59\<close>
  "handleRedo s =
     (case redoStack s of
        [] \<Rightarrow> s
      | nextText # newRedoStack \<Rightarrow>
          s\<lparr> undoStack := text_s s # undoStack s,
             redoStack := newRedoStack,
             text_s := nextText \<rparr>)"

definition handleClear :: "editor \<Rightarrow> editor" where
  \<comment> \<open>lines 81-87\<close>
  "handleClear s = s\<lparr> text_s := [], undoStack := [], redoStack := [] \<rparr>"

text \<open>A run of typed edits, oldest first, and a run of \<open>n\<close> undo clicks.\<close>

fun typeAll :: "jsstring list \<Rightarrow> editor \<Rightarrow> editor" where
  "typeAll [] s = s"
| "typeAll (b # bs) s = typeAll bs (handleTextChange b s)"

fun undoTimes :: "nat \<Rightarrow> editor \<Rightarrow> editor" where
  "undoTimes 0 s = s"
| "undoTimes (Suc n) s = undoTimes n (handleUndo s)"

definition timeline :: "editor \<Rightarrow> jsstring list" where
  \<comment> \<open>every snapshot in chronological order, the current text at its position\<close>
  "timeline s = rev (undoStack s) @ [text_s s] @ redoStack s"

section \<open>Character classes and string primitives\<close>

definition NL :: jschar where "NL = 10"
definition BULLET :: jschar where "BULLET = 8226"

definition is_space :: "jschar \<Rightarrow> bool" where
  \<comment> \<open>the class \<open>\s\<close>, and the characters \<open>trim\<close> strips: TAB LF VT FF CR SP NBSP, U+1680,
      U+2000..U+200A, U+2028, U+2029, U+202F, U+205F, U+3000, U+FEFF\<close>
  "is_space c =
     (c \<in> set [9, 10, 11, 12, 13, 32, 160, 5760, 8232, 8233, 8239, 8287, 12288, 65279]
      \<or> (8192 \<le> c \<and> c \<le> 8202))"

definition is_digit :: "jschar \<Rightarrow> bool" where
  \<comment> \<open>the class \<open>\d\<close>\<close>
  "is_digit c = (48 \<le> c \<and> c \<le> 57)"

definition is_bullet :: "jschar \<Rightarrow> bool" where
  \<comment> \<open>the class \<open>[\-\*\<bullet>]\<close> of lines 114 and 116: hyphen, asterisk, U+2022\<close>
  "is_bullet c = (c = 45 \<or> c = 42 \<or> c = BULLET)"


definition substring :: "jsstring \<Rightarrow> nat \<Rightarrow> nat \<Rightarrow> jsstring" where
  \<comment> \<open>\<open>s.substring(a, b)\<close>: both indices are clamped to the length and swapped if \<open>a > b\<close>\<close>
  "substring s a b =
     (let n = length s; a' = min a n; b' = min b n;
          lo = min a' b'; hi = max a' b'
      in take (hi - lo) (drop lo s))"

definition substringFrom :: "jsstring \<Rightarrow> nat \<Rightarrow> jsstring" where
  \<comment> \<open>\<open>s.substring(a)\<close>: the end defaults to the length\<close>
  "substringFrom s a = substring s a (length s)"

fun indexOf :: "jsstring \<Rightarrow> jschar \<Rightarrow> nat option" where
  \<comment> \<open>\<open>s.indexOf(c)\<close> for a one-unit \<open>c\<close>; \<open>None\<close> stands for -1\<close>
  "indexOf [] c = None"
| "indexOf (x # xs) c = (if x = c then Some 0 else map_option Suc (indexOf xs c))"

definition lastIndexOf :: "jsstring \<Rightarrow> jschar \<Rightarrow> nat option" where
  \<comment> \<open>\<open>s.lastIndexOf(c)\<close>; \<open>None\<close> stands for -1\<close>
  "lastIndexOf s c =
     (case indexOf (rev s) c of None \<Rightarrow> None | Some i \<Rightarrow> Some (length s - 1 - i))"

definition trimEnd :: "jsstring \<Rightarrow> jsstring" where
  "trimEnd s = rev (dropWhile is_space (rev s))"

definition trim :: "jsstring \<Rightarrow> jsstring" where
  "trim s = trimEnd (dropWhile is_space s)"

definition toLowerCase :: "jsstring \<Rightarrow> jsstring" where
  \<comment> \<open>the ASCII part of \<open>toLowerCase\<close>. The source compares the result with \<open>'b'\<close> and
      \<open>'n'\<close> only, and no code unit outside \<open>A-Z\<close> lowercases to either.\<close>
  "toLowerCase s = map (\<lambda>c. if 65 \<le> c \<and> c \<le> 90 then c + 32 else c) s"

section \<open>Numbers\<close>

text \<open>
  \<open>parseInt\<close> is called on the text matched by \<open>\d+\<close>, so every number of the program is a
  double holding a non-negative integer, or \<open>Infinity\<close>. Such a double is given by its
  integer value; \<open>toDouble\<close> rounds a natural number to the nearest double (53 significant
  bits, ties to even, overflow to \<open>Infinity\<close> from \<open>2^1024 - 2^970\<close> on).
\<close>

datatype jsnumber = Finite nat | PosInf

fun bitlen :: "nat \<Rightarrow> nat" where
  "bitlen n = (if n = 0 then 0 else Suc (bitlen (n div 2)))"

declare bitlen.simps [simp del]

definition round53 :: "nat \<Rightarrow> nat" where
  \<comment> \<open>an integer rounded to 53 significant bits, to the nearest, ties to even\<close>
  "round53 n =
     (if n < 2 ^ 53 then n
      else
        let e = bitlen n - 53; q = n div 2 ^ e; r = n mod 2 ^ e; half = 2 ^ (e - 1);
            q' = (if half < r \<or> (r = half \<and> odd q) then q + 1 else q)
        in q' * 2 ^ e)"

definition toDouble :: "nat \<Rightarrow> jsnumber" where
  "toDouble n = (if 2 ^ 1024 \<le> round53 n then PosInf else Finite (round53 n))"

definition digitsValue :: "jsstring \<Rightarrow> nat" where
  \<comment> \<open>the mathematical integer written by a string of decimal digits\<close>
  "digitsValue ds = foldl (\<lambda>acc d. 10 * acc + (unat d - 48)) 0 ds"

definition parseInt :: "jsstring \<Rightarrow> jsnumber" where
  \<comment> \<open>\<open>parseInt(number)\<close> on a non-empty string of decimal digits: radix 10, no sign, no
      prefix; the result is the double nearest to the integer written\<close>
  "parseInt ds = toDouble (digitsValue ds)"

fun plusOne :: "jsnumber \<Rightarrow> jsnumber" where
  \<comment> \<open>\<open>number + 1\<close>: the exact sum, rounded\<close>
  "plusOne (Finite n) = toDouble (n + 1)"
| "plusOne PosInf = PosInf"

fun decimal :: "nat \<Rightarrow> jsstring" where
  "decimal n = (if n < 10 then [of_nat (48 + n)] else decimal (n div 10) @ [of_nat (48 + n mod 10)])"

declare decimal.simps [simp del]

fun findRepr :: "nat \<Rightarrow> nat list \<Rightarrow> nat" where
  \<comment> \<open>the decimal with the fewest significant digits that rounds to the double \<open>x\<close>; \<open>ps\<close>
      are the powers of ten to try, largest first. Of two candidates with the same number
      of digits the one nearer to \<open>x\<close> wins, and on a tie the one with the even digit string.\<close>
  "findRepr x [] = x"
| "findRepr x (p # ps) =
     (let lo = (x div p) * p; hi = lo + p;
          okl = (toDouble lo = Finite x); okh = (toDouble hi = Finite x)
      in if okl \<and> okh then
           (if x - lo < hi - x then lo
            else if hi - x < x - lo then hi
            else if even (x div p) then lo else hi)
         else if okl then lo
         else if okh then hi
         else findRepr x ps)"

definition shortest :: "nat \<Rightarrow> nat" where
  \<comment> \<open>the integer \<open>s * 10^(n-k)\<close> of \<open>Number::toString\<close>: fewest digits \<open>k\<close> of \<open>s\<close>, rounding
      to the double \<open>x\<close>\<close>
  "shortest x =
     (let n = length (decimal x) in findRepr x (map (\<lambda>k. 10 ^ (n - k)) [1..<n]))"

definition exponential :: "jsstring \<Rightarrow> jsstring" where
  \<comment> \<open>the digits \<open>ds\<close> of an integer in exponent form: first digit, the other significant
      digits after a period if there are any, \<open>e+\<close> and the exponent\<close>
  "exponential ds =
     (let sig = rev (dropWhile (\<lambda>c. c = 48) (rev ds));
          mant = (case sig of [] \<Rightarrow> [] | d # rest \<Rightarrow> if rest = [] then [d] else d # 46 # rest)
      in mant @ js ''e+'' @ decimal (length ds - 1))"

fun numberToString :: "jsnumber \<Rightarrow> jsstring" where
  \<comment> \<open>the string a number contributes to a concatenation (\<open>Number::toString\<close>, radix 10):
      the shortest digits that read back as the same double, followed by zeros when the
      integer has at most 21 digits, in exponent form otherwise\<close>
  "numberToString (Finite x) =
     (let ds = decimal (shortest x) in if length ds \<le> 21 then ds else exponential ds)"
| "numberToString PosInf = js ''Infinity''"

section \<open>List-aware line editing\<close>

definition lineStartIndex :: "jsstring \<Rightarrow> nat \<Rightarrow> nat" where
  \<comment> \<open>lines 151-153, and again 234-236 and 254-256\<close>
  "lineStartIndex t cursorPosition =
     (let textBeforeCursor = substring t 0 cursorPosition
      in case lastIndexOf textBeforeCursor NL of None \<Rightarrow> 0 | Some i \<Rightarrow> i + 1)"

definition getCurrentLine :: "jsstring \<Rightarrow> nat \<Rightarrow> jsstring" where
  \<comment> \<open>lines 150-162\<close>
  "getCurrentLine t cursorPosition =
     (let textAfterCursor = substringFrom t cursorPosition;
          lineEndIndex = (case indexOf textAfterCursor NL of
                            None \<Rightarrow> length t
                          | Some i \<Rightarrow> cursorPosition + i)
      in substring t (lineStartIndex t cursorPosition) lineEndIndex)"

text \<open>
  The two patterns of \<open>handleKeyDown\<close>, \<open>/^(\s*)([\-\*\<bullet>])(\s+)/\<close> and
  \<open>/^(\s*)(\d+)(\.\s+)/\<close>. Whitespace, bullet glyphs, digits and the period are pairwise
  disjoint classes, so the greedy match is the only one: each group is the longest run of
  its class. The result is the three groups. The patterns tested first (lines 114, 131)
  are the same ones without groups.
\<close>

definition matchBullet :: "jsstring \<Rightarrow> (jsstring \<times> jsstring \<times> jsstring) option" where
  "matchBullet line =
     (let indent = takeWhile is_space line
      in case dropWhile is_space line of
           [] \<Rightarrow> None
         | b # rest \<Rightarrow>
             (let space = takeWhile is_space rest
              in if is_bullet b \<and> space \<noteq> [] then Some (indent, [b], space) else None))"

definition matchNumber :: "jsstring \<Rightarrow> (jsstring \<times> jsstring \<times> jsstring) option" where
  "matchNumber line =
     (let indent = takeWhile is_space line;
          rest = dropWhile is_space line;
          number = takeWhile is_digit rest
      in case dropWhile is_digit rest of
           [] \<Rightarrow> None
         | d # rest' \<Rightarrow>
             (let space = takeWhile is_space rest'
              in if number \<noteq> [] \<and> d = 46 \<and> space \<noteq> []
                 then Some (indent, number, d # space) else None))"

text \<open>
  What a handler leaves behind: the new component state, whether it called
  \<open>preventDefault\<close>, and the caret offset it scheduled with \<open>setTimeout\<close> (\<open>None\<close> when
  it scheduled none).
\<close>

record outcome =
  state :: editor
  defaultPrevented :: bool
  caret :: "nat option"

definition insertBulletPoint :: "nat option \<Rightarrow> editor \<Rightarrow> editor \<times> nat option" where
  \<comment> \<open>lines 164-178; the first argument is \<open>textareaRef.current\<close>, given by its
      \<open>selectionStart\<close>, \<open>None\<close> when the ref is null\<close>
  "insertBulletPoint textarea s =
     (case textarea of
        None \<Rightarrow> (s, None)
      | Some cursorPosition \<Rightarrow>
          (let newText = substring (text_s s) 0 cursorPosition @ [BULLET, 32]
                         @ substringFrom (text_s s) cursorPosition
           in (s\<lparr> undoStack := text_s s # undoStack s, text_s := newText \<rparr>,
               Some (cursorPosition + 2))))"

definition insertNumberedItem :: "nat option \<Rightarrow> editor \<Rightarrow> editor \<times> nat option" where
  \<comment> \<open>lines 180-194\<close>
  "insertNumberedItem textarea s =
     (case textarea of
        None \<Rightarrow> (s, None)
      | Some cursorPosition \<Rightarrow>
          (let newText = substring (text_s s) 0 cursorPosition @ js ''1. ''
                         @ substringFrom (text_s s) cursorPosition
           in (s\<lparr> undoStack := text_s s # undoStack s, text_s := newText \<rparr>,
               Some (cursorPosition + 3))))"

definition continueBulletList ::
  "nat \<Rightarrow> jsstring \<Rightarrow> jsstring \<Rightarrow> jsstring \<Rightarrow> editor \<Rightarrow> editor \<times> nat option" where
  \<comment> \<open>lines 196-212\<close>
  "continueBulletList cursorPosition indent bullet space s =
     (let newText = substring (text_s s) 0 cursorPosition
                    @ [NL] @ indent @ bullet @ space
                    @ substringFrom (text_s s) cursorPosition;
          newCursorPosition = cursorPosition + 1 + length indent + length bullet + length space
      in (s\<lparr> undoStack := text_s s # undoStack s, text_s := newText \<rparr>,
          Some newCursorPosition))"

definition continueNumberedList ::
  "nat \<Rightarrow> jsstring \<Rightarrow> jsnumber \<Rightarrow> jsstring \<Rightarrow> editor \<Rightarrow> editor \<times> nat option" where
  \<comment> \<open>lines 214-231\<close>
  "continueNumberedList cursorPosition indent number suffix s =
     (let nextNumber = plusOne number;
          newText = substring (text_s s) 0 cursorPosition
                    @ [NL] @ indent @ numberToString nextNumber @ suffix
                    @ substringFrom (text_s s) cursorPosition;
          newCursorPosition = cursorPosition + 1 + length indent
                              + length (numberToString nextNumber) + length suffix
      in (s\<lparr> undoStack := text_s s # undoStack s, text_s := newText \<rparr>,
          Some newCursorPosition))"

definition removeBullet :: "nat \<Rightarrow> editor \<Rightarrow> editor \<times> nat option" where
  \<comment> \<open>lines 233-251\<close>
  "removeBullet cursorPosition s =
     (let lineStart = lineStartIndex (text_s s) cursorPosition;
          newText = substring (text_s s) 0 lineStart @ substringFrom (text_s s) cursorPosition
      in (s\<lparr> undoStack := text_s s # undoStack s, text_s := newText \<rparr>, Some lineStart))"

definition removeNumberedItem :: "nat \<Rightarrow> editor \<Rightarrow> editor \<times> nat option" where
  \<comment> \<open>lines 253-271\<close>
  "removeNumberedItem cursorPosition s =
     (let lineStart = lineStartIndex (text_s s) cursorPosition;
          newText = substring (text_s s) 0 lineStart @ substringFrom (text_s s) cursorPosition
      in (s\<lparr> undoStack := text_s s # undoStack s, text_s := newText \<rparr>, Some lineStart))"

text \<open>
  The key event: \<open>e.key\<close>, the two modifier flags the handler reads, and
  \<open>e.currentTarget.selectionStart\<close>.
\<close>

record key_event =
  key :: jsstring
  altKey :: bool
  shiftKey :: bool
  selectionStart :: nat

definition prevented :: "editor \<times> nat option \<Rightarrow> outcome" where
  \<comment> \<open>the outcome of a branch that called \<open>e.preventDefault()\<close> and then a list operation\<close>
  "prevented r = \<lparr> state = fst r, defaultPrevented = True, caret = snd r \<rparr>"

definition handleKeyDown :: "nat option \<Rightarrow> key_event \<Rightarrow> editor \<Rightarrow> outcome" where
  \<comment> \<open>lines 92-147; the first argument is \<open>textareaRef.current\<close> as in \<open>insertBulletPoint\<close>\<close>
  "handleKeyDown textarea e s =
     (if altKey e \<and> toLowerCase (key e) = js ''b'' then prevented (insertBulletPoint textarea s)
      else if altKey e \<and> toLowerCase (key e) = js ''n'' then prevented (insertNumberedItem textarea s)
      else if key e = js ''Enter'' \<and> \<not> shiftKey e then
        (let cursorPosition = selectionStart e;
             currentLine = getCurrentLine (text_s s) cursorPosition
         in if matchBullet currentLine \<noteq> None then
              (case matchBullet currentLine of
                 None \<Rightarrow> \<lparr> state = s, defaultPrevented = True, caret = None \<rparr>
               | Some (indent, bullet, space) \<Rightarrow>
                   if trim currentLine = bullet @ trimEnd space
                   then prevented (removeBullet cursorPosition s)
                   else prevented (continueBulletList cursorPosition indent bullet space s))
            else if matchNumber currentLine \<noteq> None then
              (case matchNumber currentLine of
                 None \<Rightarrow> \<lparr> state = s, defaultPrevented = True, caret = None \<rparr>
               | Some (indent, number, suffix) \<Rightarrow>
                   if trim currentLine = number @ trimEnd suffix
                   then prevented (removeNumberedItem cursorPosition s)
                   else prevented (continueNumberedList cursorPosition indent (parseInt number) suffix s))
            else \<lparr> state = s, defaultPrevented = False, caret = None \<rparr>)
      else \<lparr> state = s, defaultPrevented = False, caret = None \<rparr>)"

section \<open>Obfuscation\<close>











section \<open>Lemmas about the string primitives\<close>

lemma substring_prefix: "substring s 0 c = take c s"
  by (simp add: substring_def Let_def min_def)

lemma substringFrom_drop: "substringFrom s c = drop c s"
  by (simp add: substringFrom_def substring_def Let_def min_def max_def)

lemma indexOf_takeWhile:
  "indexOf xs c = (if c \<in> set xs then Some (length (takeWhile (\<lambda>x. x \<noteq> c) xs)) else None)"
  by (induction xs) auto

lemma lineStartIndex_takeWhile:
  "lineStartIndex t c =
     length (take c t) - length (takeWhile (\<lambda>x. x \<noteq> NL) (rev (take c t)))"
proof (cases "NL \<in> set (take c t)")
  case True
  then have "takeWhile (\<lambda>x. x \<noteq> NL) (rev (take c t)) \<noteq> rev (take c t)"
    by (metis (mono_tags, lifting) set_rev takeWhile_eq_all_conv)
  then have "length (takeWhile (\<lambda>x. x \<noteq> NL) (rev (take c t))) < length (take c t)"
    by (metis length_rev length_takeWhile_le le_neq_implies_less takeWhile_eq_take take_all order_refl)
  with True show ?thesis
    by (simp add: lineStartIndex_def lastIndexOf_def substring_prefix indexOf_takeWhile Let_def)
       arith
next
  case False
  then have "takeWhile (\<lambda>x. x \<noteq> NL) (rev (take c t)) = rev (take c t)"
    by (auto simp: takeWhile_eq_all_conv)
  then have "length (takeWhile (\<lambda>x. x \<noteq> NL) (rev (take c t))) = length (take c t)"
    by (simp only: length_rev)
  with False show ?thesis
    by (simp add: lineStartIndex_def lastIndexOf_def substring_prefix indexOf_takeWhile Let_def)
qed

lemma lineStartIndex_le: "lineStartIndex t c \<le> c"
  by (simp add: lineStartIndex_takeWhile) 

lemma lineStartIndex_split:
  "take (lineStartIndex t c) (take c t) = rev (dropWhile (\<lambda>x. x \<noteq> NL) (rev (take c t)))"
  "drop (lineStartIndex t c) (take c t) = rev (takeWhile (\<lambda>x. x \<noteq> NL) (rev (take c t)))"
proof -
  let ?tb = "take c t"
  let ?tw = "takeWhile (\<lambda>x. x \<noteq> NL) (rev ?tb)"
  let ?dw = "dropWhile (\<lambda>x. x \<noteq> NL) (rev ?tb)"
  have eq: "?tb = rev ?dw @ rev ?tw"
    by (metis rev_append rev_rev_ident takeWhile_dropWhile_id)
  have len: "length (rev ?dw) = lineStartIndex t c"
    unfolding lineStartIndex_takeWhile
    by (metis add_diff_cancel_right' eq length_append length_rev)
  show "take (lineStartIndex t c) ?tb = rev ?dw"
    by (metis append_eq_conv_conj eq len)
  show "drop (lineStartIndex t c) ?tb = rev ?tw"
    by (metis append_eq_conv_conj eq len)
qed

lemma lineStartIndex_no_newline:
  "NL \<notin> set (take (c - lineStartIndex t c) (drop (lineStartIndex t c) t))"
proof -
  have "take (c - lineStartIndex t c) (drop (lineStartIndex t c) t)
          = drop (lineStartIndex t c) (take c t)"
    by (simp add: drop_take)
  also have "\<dots> = rev (takeWhile (\<lambda>x. x \<noteq> NL) (rev (take c t)))"
    by (rule lineStartIndex_split)
  finally show ?thesis
    by (auto dest: set_takeWhileD)
qed

lemma lineStartIndex_after_newline:
  "lineStartIndex t c = 0 \<or> t ! (lineStartIndex t c - 1) = NL"
proof (cases "lineStartIndex t c = 0")
  case True
  then show ?thesis by simp
next
  case False
  let ?k = "lineStartIndex t c"
  let ?dw = "dropWhile (\<lambda>x. x \<noteq> NL) (rev (take c t))"
  have pre: "take ?k (take c t) = rev ?dw"
    by (rule lineStartIndex_split)
  have kc: "?k \<le> c" by (rule lineStartIndex_le)
  have klen: "?k \<le> length (take c t)"
    unfolding lineStartIndex_takeWhile by (rule diff_le_self)
  from False klen have ne: "?dw \<noteq> []"
    using pre by (metis length_0_conv length_rev length_take min.absorb2)
  then have "hd ?dw = NL"
    using hd_dropWhile [of "\<lambda>x. x \<noteq> NL" "rev (take c t)"] by simp
  then have "last (take ?k (take c t)) = NL"
    using ne pre by (simp add: last_rev)
  moreover have "take ?k (take c t) = take ?k t"
    using kc by (simp add: min.absorb1)
  moreover have "length (take ?k t) = ?k"
    using klen by simp
  ultimately have "(take ?k t) ! (?k - 1) = NL"
    using False by (metis last_conv_nth length_0_conv)
  then show ?thesis
    using False by simp
qed

lemma bullet_not_space: "is_bullet b \<Longrightarrow> \<not> is_space b"
  by (auto simp: is_bullet_def is_space_def BULLET_def)

lemma digit_not_space: "is_digit d \<Longrightarrow> \<not> is_space d"
  by (auto simp: is_digit_def is_space_def word_le_nat_alt)

lemma digit_not_bullet: "is_digit d \<Longrightarrow> \<not> is_bullet d"
  by (auto simp: is_digit_def is_bullet_def BULLET_def)

lemma period_class: "\<not> is_space 46" "\<not> is_digit 46"
  by (simp_all add: is_space_def is_digit_def)

lemma takeWhile_run:
  "list_all P xs \<Longrightarrow> ys = [] \<or> \<not> P (hd ys) \<Longrightarrow> takeWhile P (xs @ ys) = xs"
  by (cases ys; induction xs; simp)

lemma dropWhile_run:
  "list_all P xs \<Longrightarrow> ys = [] \<or> \<not> P (hd ys) \<Longrightarrow> dropWhile P (xs @ ys) = ys"
  by (cases ys; induction xs; simp)

lemma dropWhile_snoc: "\<not> P c \<Longrightarrow> dropWhile P (xs @ [c]) = dropWhile P xs @ [c]"
  by (induction xs) auto

lemma trimEnd_Cons: "\<not> is_space c \<Longrightarrow> trimEnd (c # body) = c # trimEnd body"
  by (simp add: trimEnd_def dropWhile_snoc)

lemma trimEnd_spaces: "list_all is_space sp \<Longrightarrow> trimEnd sp = []"
  by (simp add: trimEnd_def list_all_iff)

lemma trimEnd_append:
  "x \<in> set ys \<Longrightarrow> \<not> is_space x \<Longrightarrow> trimEnd (xs @ ys) = xs @ trimEnd ys"
  by (simp add: trimEnd_def dropWhile_append1)

lemma trim_Cons:
  "list_all is_space indent \<Longrightarrow> \<not> is_space c \<Longrightarrow> trim (indent @ c # body) = c # trimEnd body"
  using dropWhile_run [of is_space indent "c # body"]
  by (simp add: trim_def trimEnd_Cons)

lemma trimEnd_tail:
  assumes "list_all is_space sp" and "rest = [] \<or> \<not> is_space (hd rest)"
  shows "(trimEnd (sp @ rest) = []) = (rest = [])"
proof (cases rest)
  case Nil
  with assms show ?thesis by (simp add: trimEnd_spaces)
next
  case (Cons x xs)
  with assms have "\<not> is_space x" by simp
  then have "trimEnd (sp @ rest) = sp @ x # trimEnd xs"
    using Cons trimEnd_append [of x rest sp] by (simp add: trimEnd_Cons)
  with Cons show ?thesis by simp
qed

lemma matchBullet_item:
  assumes "list_all is_space indent" and "is_bullet b" and "sp \<noteq> []"
    and "list_all is_space sp" and "rest = [] \<or> \<not> is_space (hd rest)"
  shows "matchBullet (indent @ b # sp @ rest) = Some (indent, [b], sp)"
proof -
  have nb: "\<not> is_space b" using assms(2) by (rule bullet_not_space)
  have "takeWhile is_space (indent @ b # sp @ rest) = indent"
    using takeWhile_run [of is_space indent "b # sp @ rest"] assms(1) nb by simp
  moreover have "dropWhile is_space (indent @ b # sp @ rest) = b # sp @ rest"
    using dropWhile_run [of is_space indent "b # sp @ rest"] assms(1) nb by simp
  moreover have "takeWhile is_space (sp @ rest) = sp"
    using assms(4,5) by (rule takeWhile_run)
  ultimately show ?thesis
    using assms(2,3) by (simp add: matchBullet_def)
qed

lemma trim_bullet_item:
  assumes "list_all is_space indent" and "is_bullet b"
    and "list_all is_space sp" and "rest = [] \<or> \<not> is_space (hd rest)"
  shows "(trim (indent @ b # sp @ rest) = [b] @ trimEnd sp) = (rest = [])"
  using assms trimEnd_tail [of sp rest]
  by (simp add: trim_Cons bullet_not_space trimEnd_spaces)

lemma matchNumber_item:
  assumes "list_all is_space indent" and "ds \<noteq> []" and "list_all is_digit ds"
    and "sp \<noteq> []" and "list_all is_space sp" and "rest = [] \<or> \<not> is_space (hd rest)"
  shows "matchNumber (indent @ ds @ 46 # sp @ rest) = Some (indent, ds, 46 # sp)"
    and "matchBullet (indent @ ds @ 46 # sp @ rest) = None"
proof -
  from assms(2) obtain d ds' where ds: "ds = d # ds'" by (cases ds) auto
  with assms(3) have dd: "is_digit d" by simp
  then have nsp: "\<not> is_space d" by (rule digit_not_space)
  have tw: "takeWhile is_space (indent @ ds @ 46 # sp @ rest) = indent"
    using takeWhile_run [of is_space indent "ds @ 46 # sp @ rest"] assms(1) nsp ds by simp
  have dw: "dropWhile is_space (indent @ ds @ 46 # sp @ rest) = ds @ 46 # sp @ rest"
    using dropWhile_run [of is_space indent "ds @ 46 # sp @ rest"] assms(1) nsp ds by simp
  have twd: "takeWhile is_digit (ds @ 46 # sp @ rest) = ds"
    using takeWhile_run [of is_digit ds "46 # sp @ rest"] assms(3) period_class by simp
  have dwd: "dropWhile is_digit (ds @ 46 # sp @ rest) = 46 # sp @ rest"
    using dropWhile_run [of is_digit ds "46 # sp @ rest"] assms(3) period_class by simp
  have tws: "takeWhile is_space (sp @ rest) = sp"
    using assms(5,6) by (rule takeWhile_run)
  show "matchNumber (indent @ ds @ 46 # sp @ rest) = Some (indent, ds, 46 # sp)"
    using assms(2,4) by (simp add: matchNumber_def tw dw twd dwd tws)
  show "matchBullet (indent @ ds @ 46 # sp @ rest) = None"
  proof -
    have "dropWhile is_space (indent @ d # ds' @ 46 # sp @ rest) = d # ds' @ 46 # sp @ rest"
      using dw ds by simp
    then show ?thesis
      using dd digit_not_bullet [of d] by (simp add: matchBullet_def ds)
  qed
qed

lemma trim_number_item:
  assumes "list_all is_space indent" and "ds \<noteq> []" and "list_all is_digit ds"
    and "list_all is_space sp" and "rest = [] \<or> \<not> is_space (hd rest)"
  shows "(trim (indent @ ds @ 46 # sp @ rest) = ds @ trimEnd (46 # sp)) = (rest = [])"
proof -
  from assms(2) obtain d ds' where ds: "ds = d # ds'" by (cases ds) auto
  with assms(3) have nsp: "\<not> is_space d" by (simp add: digit_not_space)
  have "trim (indent @ ds @ 46 # sp @ rest) = d # trimEnd (ds' @ 46 # sp @ rest)"
    using trim_Cons [OF assms(1) nsp, of "ds' @ 46 # sp @ rest"] ds by simp
  also have "trimEnd (ds' @ 46 # sp @ rest) = ds' @ trimEnd (46 # sp @ rest)"
    using trimEnd_append [of 46 "46 # sp @ rest" ds'] period_class by simp
  also have "trimEnd (46 # sp @ rest) = 46 # trimEnd (sp @ rest)"
    using period_class by (simp add: trimEnd_Cons)
  finally have l: "trim (indent @ ds @ 46 # sp @ rest) = ds @ 46 # trimEnd (sp @ rest)"
    using ds by simp
  have r: "ds @ trimEnd (46 # sp) = ds @ [46]"
    using period_class assms(4) by (simp add: trimEnd_Cons trimEnd_spaces)
  show ?thesis
    using trimEnd_tail [OF assms(4,5)] by (simp add: l r)
qed

lemma caret_line:
  assumes t: "t = pre @ line @ post"
    and nl: "NL \<notin> set line"
    and pre: "pre = [] \<or> last pre = NL"
    and post: "post = [] \<or> hd post = NL"
    and c: "length pre \<le> c" "c \<le> length pre + length line"
  shows "lineStartIndex t c = length pre" and "getCurrentLine t c = line"
proof -
  define l1 where "l1 = take (c - length pre) line"
  define l2 where "l2 = drop (c - length pre) line"
  have line: "line = l1 @ l2" by (simp add: l1_def l2_def)
  have len1: "length l1 = c - length pre" using c by (simp add: l1_def)
  have n1: "NL \<notin> set l1" and n2: "NL \<notin> set l2"
    using nl line by auto
  have tb: "take c t = pre @ l1"
    using c by (simp add: t l1_def)
  have ta: "drop c t = l2 @ post"
    using c by (simp add: t l2_def)
  have "takeWhile (\<lambda>x. x \<noteq> NL) (rev (pre @ l1)) = rev l1"
  proof -
    have "rev pre = [] \<or> \<not> (hd (rev pre) \<noteq> NL)"
      using pre by (auto simp: hd_rev)
    moreover have "list_all (\<lambda>x. x \<noteq> NL) (rev l1)"
      using n1 by (auto simp: list_all_iff)
    ultimately have "takeWhile (\<lambda>x. x \<noteq> NL) (rev l1 @ rev pre) = rev l1"
      by (rule takeWhile_run [rotated])
    then show ?thesis by simp
  qed
  then show ls: "lineStartIndex t c = length pre"
    by (simp add: lineStartIndex_takeWhile tb)
  have tw: "takeWhile (\<lambda>x. x \<noteq> NL) (l2 @ post) = l2"
  proof -
    have "post = [] \<or> \<not> (hd post \<noteq> NL)" using post by auto
    moreover have "list_all (\<lambda>x. x \<noteq> NL) l2"
      using n2 by (auto simp: list_all_iff)
    ultimately show ?thesis by (rule takeWhile_run [rotated])
  qed
  have le: "(case indexOf (substringFrom t c) NL of None \<Rightarrow> length t | Some i \<Rightarrow> c + i)
              = length pre + length line"
  proof (cases post)
    case Nil
    then have "indexOf (l2 @ post) NL = None"
      using n2 by (simp add: indexOf_takeWhile)
    moreover have "length t = length pre + length line"
      using Nil by (simp add: t)
    ultimately show ?thesis
      by (simp add: substringFrom_drop ta)
  next
    case (Cons x xs)
    with post have "NL \<in> set (l2 @ post)" by auto
    then have "indexOf (l2 @ post) NL = Some (length l2)"
      by (simp only: indexOf_takeWhile tw if_True)
    moreover have "c + length l2 = length pre + length line"
      using c by (simp add: l2_def)
    ultimately show ?thesis
      by (simp add: substringFrom_drop ta)
  qed
  have "substring t (length pre) (length pre + length line) = line"
    by (simp add: substring_def Let_def t min_def max_def)
  then show "getCurrentLine t c = line"
    by (simp add: getCurrentLine_def ls le Let_def)
qed

section \<open>Lemmas about numbers\<close>

lemma bitlen_le: "n < 2 ^ k \<Longrightarrow> bitlen n \<le> k"
proof (induction k arbitrary: n)
  case 0
  then show ?case by (simp add: bitlen.simps)
next
  case (Suc k)
  then have "n div 2 < 2 ^ k" by simp
  then have "bitlen (n div 2) \<le> k" by (rule Suc.IH)
  then show ?case by (simp add: bitlen.simps [of n])
qed

lemma bitlen_gt: "2 ^ k \<le> n \<Longrightarrow> k < bitlen n"
proof (induction k arbitrary: n)
  case 0
  then show ?case by (simp add: bitlen.simps [of n])
next
  case (Suc k)
  then have "2 ^ k \<le> n div 2" by simp
  then have "k < bitlen (n div 2)" by (rule Suc.IH)
  moreover have "n \<noteq> 0"
  proof
    assume "n = 0"
    with Suc.prems show False by simp
  qed
  ultimately show ?case by (simp add: bitlen.simps [of n])
qed

lemma bitlen_lower: "n \<noteq> 0 \<Longrightarrow> 2 ^ (bitlen n - 1) \<le> n"
proof (rule ccontr)
  assume n: "n \<noteq> 0" and "\<not> 2 ^ (bitlen n - 1) \<le> n"
  then have "bitlen n \<le> bitlen n - 1" by (simp add: bitlen_le)
  moreover have "0 < bitlen n" using n by (simp add: bitlen.simps [of n])
  ultimately show False by simp
qed

lemma round53_exact: "n < 2 ^ 53 \<Longrightarrow> round53 n = n"
  by (simp add: round53_def)


lemma round53_lower:
  assumes "2 ^ 53 \<le> n"
  shows "2 ^ 53 \<le> round53 n"
proof -
  define e where "e = bitlen n - 53"
  have b: "53 < bitlen n" using assms by (rule bitlen_gt)
  then have e: "0 < e" by (simp add: e_def)
  have "n \<noteq> 0" using assms by auto
  then have "2 ^ (bitlen n - 1) \<le> n" by (rule bitlen_lower)
  moreover have "bitlen n - 1 = 52 + e" using b by (simp add: e_def)
  ultimately have "(2::nat) ^ 52 * 2 ^ e \<le> n" by (simp add: power_add)
  then have "(2 ^ 52 * 2 ^ e) div 2 ^ e \<le> n div 2 ^ e" by (rule div_le_mono)
  then have q: "2 ^ 52 \<le> n div 2 ^ e" by simp
  have "(2::nat) ^ 1 \<le> 2 ^ e" using e by (intro power_increasing) simp_all
  then have "(2::nat) ^ 52 * 2 \<le> (n div 2 ^ e) * 2 ^ e"
    using q by (intro mult_le_mono) simp_all
  moreover have "(n div 2 ^ e) * 2 ^ e \<le> round53 n"
    using assms by (simp add: round53_def Let_def e_def)
  ultimately show ?thesis by simp
qed

lemma toDouble_exact: "n < 2 ^ 53 \<Longrightarrow> toDouble n = Finite n"
  by (simp add: toDouble_def round53_exact)

lemma toDouble_below:
  assumes "toDouble y = Finite x" and "x < 2 ^ 53"
  shows "y = x"
proof (cases "y < 2 ^ 53")
  case True
  with assms(1) show ?thesis by (simp add: toDouble_exact)
next
  case False
  then have "2 ^ 53 \<le> y" by simp
  then have "2 ^ 53 \<le> round53 y" by (rule round53_lower)
  moreover from assms(1) have "round53 y = x"
    by (simp add: toDouble_def split: if_splits)
  ultimately show ?thesis using assms(2) by simp
qed

lemma findRepr_rounds: "toDouble (findRepr x ps) = Finite x \<or> findRepr x ps = x"
  by (induction ps) (auto simp: Let_def)

lemma shortest_small: "x < 2 ^ 53 \<Longrightarrow> shortest x = x"
  using findRepr_rounds [of x] toDouble_below [of _ x]
  by (auto simp: shortest_def Let_def)

lemma length_decimal: "0 < k \<Longrightarrow> n < 10 ^ k \<Longrightarrow> length (decimal n) \<le> k"
proof (induction k arbitrary: n)
  case 0
  then show ?case by simp
next
  case (Suc k)
  show ?case
  proof (cases "n < 10")
    case True
    then show ?thesis by (simp add: decimal.simps [of n])
  next
    case False
    with Suc.prems have "0 < k" by (cases k) auto
    moreover from Suc.prems have "n div 10 < 10 ^ k" by simp
    ultimately have "length (decimal (n div 10)) \<le> k" by (rule Suc.IH)
    with False show ?thesis by (simp add: decimal.simps [of n])
  qed
qed

lemma numberToString_small:
  assumes "x < 2 ^ 53"
  shows "numberToString (Finite x) = decimal x"
proof -
  have "x < 10 ^ 21" using assms by simp
  then have "length (decimal x) \<le> 21" by (intro length_decimal) simp_all
  then show ?thesis using assms by (simp add: shortest_small)
qed

lemma digitsValue_snoc: "digitsValue (ds @ [d]) = 10 * digitsValue ds + (unat d - 48)"
  by (simp add: digitsValue_def)

lemma unat_digit:
  assumes "k < 10"
  shows "unat (of_nat (48 + k) :: 16 word) = 48 + k"
proof -
  have "unat (of_nat (48 + k) :: 16 word) = (48 + k) mod 2 ^ LENGTH(16)"
    by (simp only: unat_of_nat)
  also have "\<dots> = 48 + k"
    using assms by simp
  finally show ?thesis .
qed

lemma digitsValue_decimal: "digitsValue (decimal n) = n"
proof (induction n rule: decimal.induct)
  case (1 n)
  show ?case
  proof (cases "n < 10")
    case True
    then show ?thesis
      using digitsValue_snoc [of "[]" "of_nat (48 + n)"] unat_digit [of n]
      by (simp add: decimal.simps [of n] digitsValue_def)
  next
    case False
    then have "digitsValue (decimal n) = 10 * (n div 10) + n mod 10"
      using 1 unat_digit [of "n mod 10"]
      by (simp add: decimal.simps [of n] digitsValue_snoc)
    then show ?thesis by simp
  qed
qed

lemma bitlen_2_53: "bitlen 9007199254740992 = 54"
  by (simp add: bitlen.simps)

lemma bitlen_2_53_1: "bitlen 9007199254740993 = 54"
  by (simp add: bitlen.simps)

lemma toDouble_2_53: "toDouble 9007199254740992 = Finite 9007199254740992"
  by (simp add: toDouble_def round53_def bitlen_2_53 Let_def)

lemma toDouble_2_53_1: "toDouble 9007199254740993 = Finite 9007199254740992"
  by (simp add: toDouble_def round53_def bitlen_2_53_1 Let_def)

lemma decimal_2_53: "decimal 9007199254740992 = js ''9007199254740992''"
  by (simp add: decimal.simps js_def)

lemma digitsValue_2_53: "digitsValue (js ''9007199254740992'') = 9007199254740992"
  by (simp add: digitsValue_def js_def)

lemma toDouble_2_53_only:
  assumes "toDouble y = Finite 9007199254740992"
  shows "y = 9007199254740992 \<or> y = 9007199254740993"
proof -
  have r: "round53 y = 2 ^ 53"
    using assms by (simp add: toDouble_def split: if_splits)
  have y: "2 ^ 53 \<le> y"
  proof (rule ccontr)
    assume "\<not> 2 ^ 53 \<le> y"
    then have "round53 y = y" by (simp add: round53_exact)
    with r \<open>\<not> 2 ^ 53 \<le> y\<close> show False by simp
  qed
  have "y < 2 ^ 54"
  proof (rule ccontr)
    assume "\<not> y < 2 ^ 54"
    then have "2 ^ 54 \<le> y" by simp
    then have "54 < bitlen y" by (rule bitlen_gt)
    then have "bitlen y - 54 \<le> bitlen y - 1 - 54 + 1" by simp
    have "y \<noteq> 0" using y by auto
    then have l: "2 ^ (bitlen y - 1) \<le> y" by (rule bitlen_lower)
    define e where "e = bitlen y - 53"
    have e: "2 \<le> e" using \<open>54 < bitlen y\<close> by (simp add: e_def)
    have "bitlen y - 1 = 52 + e" using \<open>54 < bitlen y\<close> by (simp add: e_def)
    with l have "(2::nat) ^ 52 * 2 ^ e \<le> y" by (simp add: power_add)
    then have "(2 ^ 52 * 2 ^ e) div 2 ^ e \<le> y div 2 ^ e" by (rule div_le_mono)
    then have q: "2 ^ 52 \<le> y div 2 ^ e" by simp
    have "(2::nat) ^ 2 \<le> 2 ^ e" using e by (intro power_increasing) simp_all
    then have "(2::nat) ^ 52 * 2 ^ 2 \<le> (y div 2 ^ e) * 2 ^ e"
      using q by (intro mult_le_mono) simp_all
    moreover have "(y div 2 ^ e) * 2 ^ e \<le> round53 y"
      using y by (simp add: round53_def Let_def e_def)
    ultimately show False using r by simp
  qed
  then have "bitlen y \<le> 54" by (rule bitlen_le)
  moreover have "53 < bitlen y" using y by (rule bitlen_gt)
  ultimately have b: "bitlen y = 54" by simp
  have q: "2 ^ 52 \<le> y div 2" using y by simp
  have "round53 y = (y div 2) * 2 \<or> round53 y = (y div 2 + 1) * 2"
    using y by (simp add: round53_def Let_def b)
  with r q have "y div 2 = 2 ^ 52" by auto
  moreover have "y < 2 ^ 54" by fact
  ultimately show ?thesis by simp arith
qed

lemma shortest_2_53: "shortest 9007199254740992 = 9007199254740992"
proof -
  have step: "findRepr 9007199254740992 ps = 9007199254740992" if "\<forall>p\<in>set ps. even p" for ps
    using that
  proof (induction ps)
    case Nil
    show ?case by simp
  next
    case (Cons p ps)
    let ?x = "9007199254740992::nat"
    let ?lo = "(?x div p) * p"
    have ev: "even p" using Cons.prems by simp
    have lo_le: "?lo \<le> ?x" by simp
    have okl: "?lo = ?x" if "toDouble ?lo = Finite ?x"
      using toDouble_2_53_only [OF that] lo_le by simp
    have okh: "?lo + p = ?x" if "toDouble (?lo + p) = Finite ?x"
    proof -
      from toDouble_2_53_only [OF that] show ?thesis
      proof
        assume "?lo + p = 9007199254740993"
        moreover have "even (?lo + p)" using ev by simp
        ultimately show ?thesis by simp
      qed
    qed
    have rest: "findRepr ?x ps = ?x" using Cons by simp
    show ?case
      using okl okh rest by (auto simp: Let_def)
  qed
  have "length (decimal 9007199254740992) = 16"
    by (simp add: decimal_2_53 js_def)
  then show ?thesis
    by (simp add: shortest_def step)
qed

lemma numberToString_2_53: "numberToString (Finite 9007199254740992) = js ''9007199254740992''"
proof -
  have "length (decimal 9007199254740992) \<le> 21"
    by (simp add: decimal_2_53 js_def)
  then show ?thesis
    by (simp add: Let_def shortest_2_53 decimal_2_53)
qed

lemma plusOne_parseInt:
  assumes "digitsValue ds < 2 ^ 53"
  shows "numberToString (plusOne (parseInt ds)) = decimal (digitsValue ds + 1)"
proof -
  have p: "parseInt ds = Finite (digitsValue ds)"
    using assms by (simp add: parseInt_def toDouble_exact)
  show ?thesis
  proof (cases "digitsValue ds + 1 < 2 ^ 53")
    case True
    then have "plusOne (parseInt ds) = Finite (digitsValue ds + 1)"
      unfolding p plusOne.simps by (rule toDouble_exact)
    then show ?thesis
      using True by (simp only: numberToString_small)
  next
    case False
    with assms have v: "digitsValue ds + 1 = 9007199254740992" by simp
    then have "plusOne (parseInt ds) = Finite 9007199254740992"
      unfolding p plusOne.simps by (simp only: toDouble_2_53)
    then show ?thesis
      by (simp only: v numberToString_2_53 decimal_2_53)
  qed
qed

lemma plusOne_2_53:
  "numberToString (plusOne (parseInt (js ''9007199254740992''))) = js ''9007199254740992''"
  by (simp add: parseInt_def digitsValue_2_53 toDouble_2_53 toDouble_2_53_1 numberToString_2_53
      del: numberToString.simps)

section \<open>Lemmas about the key handler\<close>

lemma enter_not_shortcut:
  "toLowerCase (js ''Enter'') \<noteq> js ''b''" "toLowerCase (js ''Enter'') \<noteq> js ''n''"
  by (simp_all add: toLowerCase_def js_def)

lemma enter_bullet_item:
  assumes "key e = js ''Enter''" and "\<not> shiftKey e"
    and "getCurrentLine (text_s s) (selectionStart e) = indent @ b # sp @ rest"
    and "list_all is_space indent" and "is_bullet b" and "sp \<noteq> []"
    and "list_all is_space sp" and "rest = [] \<or> \<not> is_space (hd rest)"
  shows "handleKeyDown textarea e s =
           (if rest = [] then prevented (removeBullet (selectionStart e) s)
            else prevented (continueBulletList (selectionStart e) indent [b] sp s))"
  using assms(1,2) enter_not_shortcut
    matchBullet_item [OF assms(4,5,6,7,8)] trim_bullet_item [OF assms(4,5,7,8)]
  by (simp add: handleKeyDown_def assms(3) Let_def)

lemma enter_number_item:
  assumes "key e = js ''Enter''" and "\<not> shiftKey e"
    and "getCurrentLine (text_s s) (selectionStart e) = indent @ ds @ 46 # sp @ rest"
    and "list_all is_space indent" and "ds \<noteq> []" and "list_all is_digit ds" and "sp \<noteq> []"
    and "list_all is_space sp" and "rest = [] \<or> \<not> is_space (hd rest)"
  shows "handleKeyDown textarea e s =
           (if rest = [] then prevented (removeNumberedItem (selectionStart e) s)
            else prevented (continueNumberedList (selectionStart e) indent (parseInt ds) (46 # sp) s))"
  using assms(1,2) enter_not_shortcut
    matchNumber_item [OF assms(4,5,6,7,8,9)] trim_number_item [OF assms(4,5,6,8,9)]
  by (simp add: handleKeyDown_def assms(3) Let_def)

lemma removeBullet_result:
  "removeBullet c s =
     (s\<lparr> undoStack := text_s s # undoStack s,
         text_s := take (lineStartIndex (text_s s) c) (text_s s) @ drop c (text_s s) \<rparr>,
      Some (lineStartIndex (text_s s) c))"
  by (simp add: removeBullet_def Let_def substring_prefix substringFrom_drop)

lemma removeNumberedItem_result:
  "removeNumberedItem c s =
     (s\<lparr> undoStack := text_s s # undoStack s,
         text_s := take (lineStartIndex (text_s s) c) (text_s s) @ drop c (text_s s) \<rparr>,
      Some (lineStartIndex (text_s s) c))"
  by (simp add: removeNumberedItem_def Let_def substring_prefix substringFrom_drop)

lemma continueBulletList_result:
  "continueBulletList c indent bullet space s =
     (s\<lparr> undoStack := text_s s # undoStack s,
         text_s := take c (text_s s) @ [NL] @ indent @ bullet @ space @ drop c (text_s s) \<rparr>,
      Some (c + 1 + length indent + length bullet + length space))"
  by (simp add: continueBulletList_def Let_def substring_prefix substringFrom_drop)

lemma continueNumberedList_result:
  "continueNumberedList c indent number suffix s =
     (s\<lparr> undoStack := text_s s # undoStack s,
         text_s := take c (text_s s) @ [NL] @ indent @ numberToString (plusOne number)
                   @ suffix @ drop c (text_s s) \<rparr>,
      Some (c + 1 + length indent + length (numberToString (plusOne number)) + length suffix))"
  by (simp add: continueNumberedList_def Let_def substring_prefix substringFrom_drop)

section \<open>Lemmas about the obfuscation\<close>










section \<open>Properties of the history handlers\<close>

lemma handleUndo_Cons:
  "undoStack s = u # us \<Longrightarrow>
   handleUndo s = s\<lparr> redoStack := text_s s # redoStack s, undoStack := us, text_s := u \<rparr>"
  by (simp add: handleUndo_def)

lemma handleUndo_Nil: "undoStack s = [] \<Longrightarrow> handleUndo s = s"
  by (simp add: handleUndo_def)

lemma handleRedo_Nil: "redoStack s = [] \<Longrightarrow> handleRedo s = s"
  by (simp add: handleRedo_def)

text \<open>
  C2: when the Undo Stack is non-empty, undo followed at once by redo gives back the state
  before the pair: the same text, the same Undo Stack and the same Redo Stack.
\<close>

theorem undo_then_redo_restores:
  assumes "undoStack s \<noteq> []"
  shows "handleRedo (handleUndo s) = s"
proof -
  from assms obtain u us where us: "undoStack s = u # us"
    by (cases "undoStack s") auto
  then show ?thesis
    by (simp add: handleUndo_Cons handleRedo_def)
qed

theorem undo_then_redo_restores_witness:
  "undoStack (handleTextChange (js ''ab'') (handleTextChange (js ''a'') init)) \<noteq> [] \<and>
   handleRedo (handleUndo (handleTextChange (js ''ab'') (handleTextChange (js ''a'') init)))
     = handleTextChange (js ''ab'') (handleTextChange (js ''a'') init)"
proof -
  have ne: "undoStack (handleTextChange (js ''ab'') (handleTextChange (js ''a'') init)) \<noteq> []"
    by (simp add: handleTextChange_def)
  show ?thesis
    using ne undo_then_redo_restores [OF ne] by simp
qed

text \<open>
  C8: undo with an empty Undo Stack and redo with an empty Redo Stack return the state as
  it is: text, Undo Stack and Redo Stack are unchanged. The handlers are total functions,
  so there is no error outcome.
\<close>

theorem undo_redo_empty_noop:
  "(undoStack s = [] \<longrightarrow> handleUndo s = s) \<and> (redoStack s = [] \<longrightarrow> handleRedo s = s)"
  by (simp add: handleUndo_Nil handleRedo_Nil)

theorem undo_redo_empty_noop_witness:
  "undoStack init = [] \<and> redoStack init = [] \<and> handleUndo init = init \<and> handleRedo init = init"
proof -
  have u: "undoStack init = []" and r: "redoStack init = []"
    by (simp_all add: init_def)
  from undo_redo_empty_noop [of init] u r show ?thesis by simp
qed

text \<open>
  C9: undo and redo each keep the timeline \<open>rev undoStack @ [text] @ redoStack\<close> as it is;
  they only move the current position inside it.
\<close>

theorem undo_redo_preserve_timeline:
  "timeline (handleUndo s) = timeline s \<and> timeline (handleRedo s) = timeline s"
  by (simp add: timeline_def handleUndo_def handleRedo_def split: list.split)

lemma undoTimes_no_history: "undoStack s = [] \<Longrightarrow> undoTimes n s = s"
  by (induction n) (simp_all add: handleUndo_Nil)

text \<open>
  C4: clear gives an empty text and two empty stacks from every state, and any number of
  undo clicks after it leaves that state as it is, so none of them brings back the text
  from before the clear.
\<close>

theorem clear_resets_and_not_undoable:
  "text_s (handleClear s) = [] \<and> undoStack (handleClear s) = [] \<and>
   redoStack (handleClear s) = [] \<and>
   (\<forall>n. undoTimes n (handleClear s) = handleClear s)"
proof -
  have u: "undoStack (handleClear s) = []"
    by (simp add: handleClear_def)
  have "text_s (handleClear s) = []" and "redoStack (handleClear s) = []"
    by (simp_all add: handleClear_def)
  with u undoTimes_no_history [OF u] show ?thesis
    by simp
qed

lemma undoTimes_Suc_last: "undoTimes (Suc n) s = handleUndo (undoTimes n s)"
  by (induction n arbitrary: s) simp_all

lemma undo_after_typing:
  "undoTimes (length bs) (typeAll bs s) = (if bs = [] then s else s\<lparr> redoStack := bs \<rparr>)"
proof (induction bs arbitrary: s)
  case Nil
  show ?case by simp
next
  case (Cons b bs)
  have "undoTimes (length (b # bs)) (typeAll (b # bs) s)
        = handleUndo (undoTimes (length bs) (typeAll bs (handleTextChange b s)))"
    by (simp only: length_Cons typeAll.simps undoTimes_Suc_last)
  also have "\<dots> = s\<lparr> redoStack := b # bs \<rparr>"
    by (simp add: Cons.IH handleTextChange_def handleUndo_def)
  finally show ?case by simp
qed

text \<open>
  C3 (as amended): after typing \<open>b1, ..., bn\<close> into the fresh editor and clicking undo
  \<open>n\<close> times the text is empty, the Undo Stack is empty, and the Redo Stack is
  \<open>[b1, ..., bn]\<close>: its top, the snapshot undone last, is \<open>b1\<close>.
\<close>

theorem typing_then_undo_all:
  "text_s (undoTimes (length bs) (typeAll bs init)) = [] \<and>
   undoStack (undoTimes (length bs) (typeAll bs init)) = [] \<and>
   redoStack (undoTimes (length bs) (typeAll bs init)) = bs"
  by (simp add: undo_after_typing init_def)

theorem redo_order_counterexample:
  "redoStack (undoTimes (length [js ''a'', js ''ab'']) (typeAll [js ''a'', js ''ab''] init))
     \<noteq> [js ''ab'', js ''a'']"
  by (simp add: handleTextChange_def handleUndo_def init_def js_def)

text \<open>
  C1: a recorded mutation should leave the Redo Stack empty. The typed edit does; the
  bullet insertion on the same state, reached by typing twice and undoing once, keeps the
  undone snapshot on the Redo Stack.
\<close>

theorem insertBulletPoint_keeps_redo:
  "redoStack (handleUndo (typeAll [js ''a'', js ''ab''] init)) = [js ''ab''] \<and>
   redoStack (handleTextChange (js ''ax'') (handleUndo (typeAll [js ''a'', js ''ab''] init))) = [] \<and>
   redoStack (fst (insertBulletPoint (Some 1) (handleUndo (typeAll [js ''a'', js ''ab''] init))))
     = [js ''ab''] \<and>
   text_s (fst (insertBulletPoint (Some 1) (handleUndo (typeAll [js ''a'', js ''ab''] init))))
     = js ''a'' @ [BULLET, 32]"
  by (simp add: insertBulletPoint_def handleTextChange_def handleUndo_def init_def js_def
      substring_def substringFrom_def)

text \<open>
  C10: Enter with Shift held changes nothing: the handler returns the state as it is, does
  not call \<open>preventDefault\<close> and schedules no caret, whatever the caret line looks like.
\<close>

theorem shift_enter_leaves_state:
  assumes "key e = js ''Enter''" and "shiftKey e"
  shows "handleKeyDown textarea e s = \<lparr> state = s, defaultPrevented = False, caret = None \<rparr>"
  using assms by (simp add: handleKeyDown_def toLowerCase_def js_def)

theorem shift_enter_leaves_state_witness:
  "key \<lparr> key = js ''Enter'', altKey = False, shiftKey = True, selectionStart = 2 \<rparr>
     = js ''Enter'' \<and>
   shiftKey \<lparr> key = js ''Enter'', altKey = False, shiftKey = True, selectionStart = 2 \<rparr> \<and>
   handleKeyDown (Some 2)
     \<lparr> key = js ''Enter'', altKey = False, shiftKey = True, selectionStart = 2 \<rparr>
     (init\<lparr> text_s := js ''- '' \<rparr>)
   = \<lparr> state = init\<lparr> text_s := js ''- '' \<rparr>, defaultPrevented = False, caret = None \<rparr>"
  using shift_enter_leaves_state
    [of "\<lparr> key = js ''Enter'', altKey = False, shiftKey = True, selectionStart = 2 \<rparr>"
        "Some 2" "init\<lparr> text_s := js ''- '' \<rparr>"]
  by simp

section \<open>Properties of the list-aware key handler\<close>

text \<open>
  C7: let the text be \<open>pre @ line @ post\<close> where \<open>line\<close> holds no newline, \<open>pre\<close> is empty
  or ends in a newline, \<open>post\<close> is empty or starts with one and the caret lies within
  \<open>line\<close>, so that \<open>line\<close> is the caret line. When \<open>line\<close> is an empty list item (leading
  whitespace, then a bullet glyph or digits and a period, then whitespace only) Enter
  without Shift deletes the part of the line before the caret and inserts no newline: the
  new text is \<open>pre\<close>, what the line has from the caret on, and \<open>post\<close>. The caret goes to
  the line start. The old text is pushed on the Undo Stack, so one undo brings back the
  text and the Undo Stack as they were.
\<close>

theorem enter_on_empty_item_removes_marker:
  assumes "key e = js ''Enter''" and "\<not> shiftKey e"
    and "text_s s = pre @ (indent @ marker @ sp) @ post"
    and "NL \<notin> set (indent @ marker @ sp)"
    and "pre = [] \<or> last pre = NL" and "post = [] \<or> hd post = NL"
    and "length pre \<le> selectionStart e"
    and "selectionStart e \<le> length pre + length (indent @ marker @ sp)"
    and "list_all is_space indent" and "sp \<noteq> []" and "list_all is_space sp"
    and "(\<exists>b. marker = [b] \<and> is_bullet b) \<or>
         (\<exists>ds. marker = ds @ [46] \<and> ds \<noteq> [] \<and> list_all is_digit ds)"
  shows "handleKeyDown textarea e s =
           \<lparr> state = s\<lparr> undoStack := text_s s # undoStack s,
                        text_s := pre @ drop (selectionStart e - length pre) (indent @ marker @ sp)
                                  @ post \<rparr>,
             defaultPrevented = True,
             caret = Some (length pre) \<rparr> \<and>
         text_s (handleUndo (state (handleKeyDown textarea e s))) = text_s s \<and>
         undoStack (handleUndo (state (handleKeyDown textarea e s))) = undoStack s"
proof -
  let ?line = "indent @ marker @ sp"
  let ?c = "selectionStart e"
  let ?r = "\<lparr> state = s\<lparr> undoStack := text_s s # undoStack s,
                        text_s := pre @ drop (?c - length pre) ?line @ post \<rparr>,
             defaultPrevented = True, caret = Some (length pre) \<rparr>"
  have ls: "lineStartIndex (text_s s) ?c = length pre"
    and line: "getCurrentLine (text_s s) ?c = ?line"
    using caret_line [OF assms(3,4,5,6,7,8)] by simp_all
  have cut: "take (length pre) (text_s s) @ drop ?c (text_s s)
               = pre @ drop (?c - length pre) ?line @ post"
    using assms(7,8) by (simp add: assms(3))
  from assms(12) have r: "handleKeyDown textarea e s = ?r"
  proof
    assume "\<exists>b. marker = [b] \<and> is_bullet b"
    then obtain b where b: "marker = [b]" "is_bullet b" by blast
    have "getCurrentLine (text_s s) ?c = indent @ b # sp @ []"
      using line b by simp
    from enter_bullet_item [OF assms(1,2) this assms(9) b(2) assms(10,11)]
    show ?thesis using cut by (simp add: prevented_def removeBullet_result ls)
  next
    assume "\<exists>ds. marker = ds @ [46] \<and> ds \<noteq> [] \<and> list_all is_digit ds"
    then obtain ds where ds: "marker = ds @ [46]" "ds \<noteq> []" "list_all is_digit ds" by blast
    have "getCurrentLine (text_s s) ?c = indent @ ds @ 46 # sp @ []"
      using line ds by simp
    from enter_number_item [OF assms(1,2) this assms(9) ds(2,3) assms(10,11)]
    show ?thesis using cut by (simp add: prevented_def removeNumberedItem_result ls)
  qed
  have u: "text_s (handleUndo (state ?r)) = text_s s \<and>
           undoStack (handleUndo (state ?r)) = undoStack s"
    by (simp add: handleUndo_def)
  show ?thesis
    using u unfolding r by blast
qed

theorem enter_on_empty_item_removes_marker_witness:
  "text_s (init\<lparr> text_s := js ''a'' @ [NL] @ js ''- '' @ [NL] @ js ''b'' \<rparr>)
     = (js ''a'' @ [NL]) @ ([] @ js ''-'' @ js '' '') @ ([NL] @ js ''b'') \<and>
   NL \<notin> set ([] @ js ''-'' @ js '' '') \<and> last (js ''a'' @ [NL]) = NL \<and>
   hd ([NL] @ js ''b'') = NL \<and> is_bullet 45 \<and> list_all is_space (js '' '') \<and>
   handleKeyDown (Some 4)
       \<lparr> key = js ''Enter'', altKey = False, shiftKey = False, selectionStart = 4 \<rparr>
       (init\<lparr> text_s := js ''a'' @ [NL] @ js ''- '' @ [NL] @ js ''b'' \<rparr>)
     = \<lparr> state = init\<lparr> undoStack := [js ''a'' @ [NL] @ js ''- '' @ [NL] @ js ''b''],
                         text_s := js ''a'' @ [NL] @ [NL] @ js ''b'' \<rparr>,
         defaultPrevented = True, caret = Some 2 \<rparr> \<and>
   handleKeyDown (Some 2)
       \<lparr> key = js ''Enter'', altKey = False, shiftKey = False, selectionStart = 2 \<rparr>
       (init\<lparr> text_s := js ''- '' \<rparr>)
     = \<lparr> state = init\<lparr> undoStack := [js ''- ''], text_s := [] \<rparr>,
         defaultPrevented = True, caret = Some 0 \<rparr>"
proof -
  let ?e = "\<lparr> key = js ''Enter'', altKey = False, shiftKey = False, selectionStart = 4 \<rparr>"
  let ?s = "init\<lparr> text_s := js ''a'' @ [NL] @ js ''- '' @ [NL] @ js ''b'' \<rparr>"
  let ?e' = "\<lparr> key = js ''Enter'', altKey = False, shiftKey = False, selectionStart = 2 \<rparr>"
  let ?s' = "init\<lparr> text_s := js ''- '' \<rparr>"
  have t: "text_s ?s = (js ''a'' @ [NL]) @ ([] @ js ''-'' @ js '' '') @ ([NL] @ js ''b'')"
    by (simp add: js_def)
  have t': "text_s ?s' = [] @ ([] @ js ''-'' @ js '' '') @ []"
    by (simp add: js_def)
  have nl: "NL \<notin> set ([] @ js ''-'' @ js '' '')" by (simp add: js_def NL_def)
  have b: "is_bullet 45" by (simp add: is_bullet_def)
  have sp: "list_all is_space (js '' '')" "js '' '' \<noteq> []" by (simp_all add: js_def is_space_def)
  have m: "(\<exists>b. js ''-'' = [b] \<and> is_bullet b) \<or>
           (\<exists>ds. js ''-'' = ds @ [46] \<and> ds \<noteq> [] \<and> list_all is_digit ds)"
    using b by (simp add: js_def)
  have h1: "handleKeyDown (Some 4) ?e ?s =
      \<lparr> state = ?s\<lparr> undoStack := text_s ?s # undoStack ?s,
                     text_s := (js ''a'' @ [NL]) @ drop (selectionStart ?e - length (js ''a'' @ [NL]))
                                  ([] @ js ''-'' @ js '' '') @ ([NL] @ js ''b'') \<rparr>,
        defaultPrevented = True, caret = Some (length (js ''a'' @ [NL])) \<rparr>"
    using enter_on_empty_item_removes_marker
      [of ?e ?s "js ''a'' @ [NL]" "[]" "js ''-''" "js '' ''" "[NL] @ js ''b''" "Some 4",
       OF _ _ t nl _ _ _ _ _ sp(2) sp(1) m]
    by (simp add: js_def)
  have h2: "handleKeyDown (Some 2) ?e' ?s' =
      \<lparr> state = ?s'\<lparr> undoStack := text_s ?s' # undoStack ?s',
                     text_s := [] @ drop (selectionStart ?e' - length ([]::jsstring))
                                  ([] @ js ''-'' @ js '' '') @ [] \<rparr>,
        defaultPrevented = True, caret = Some (length ([]::jsstring)) \<rparr>"
    using enter_on_empty_item_removes_marker
      [of ?e' ?s' "[]" "[]" "js ''-''" "js '' ''" "[]" "Some 2",
       OF _ _ t' nl _ _ _ _ _ sp(2) sp(1) m]
    by (simp add: js_def)
  show ?thesis
    unfolding h1 h2 using nl b sp(1) by (simp add: init_def js_def)
qed

text \<open>
  C6 (as amended): let the text be \<open>pre @ line @ post\<close> with \<open>line\<close> the caret line as in C7.
  When \<open>line\<close> is a list item with content after the marker, Enter without Shift inserts
  at the caret a newline, the line's leading whitespace, the marker and the line's
  spacing, and schedules the caret right after them. For a bullet line the marker is the
  same glyph; for a numbered line whose number is below \<open>2^53\<close> it is the decimal numeral
  of that number plus one (\<open>digitsValue_decimal\<close>) and the period.
\<close>

theorem enter_on_list_item_continues:
  assumes "key e = js ''Enter''" and "\<not> shiftKey e"
    and "text_s s = pre @ (indent @ marker @ sp @ rest) @ post"
    and "NL \<notin> set (indent @ marker @ sp @ rest)"
    and "pre = [] \<or> last pre = NL" and "post = [] \<or> hd post = NL"
    and "length pre \<le> selectionStart e"
    and "selectionStart e \<le> length pre + length (indent @ marker @ sp @ rest)"
    and "list_all is_space indent" and "sp \<noteq> []" and "list_all is_space sp"
    and "rest \<noteq> []" and "\<not> is_space (hd rest)"
    and "(\<exists>b. marker = [b] \<and> is_bullet b \<and> next = [b]) \<or>
         (\<exists>ds. marker = ds @ [46] \<and> ds \<noteq> [] \<and> list_all is_digit ds \<and>
               digitsValue ds < 2 ^ 53 \<and> next = decimal (digitsValue ds + 1) @ [46])"
  shows "handleKeyDown textarea e s =
           \<lparr> state = s\<lparr> undoStack := text_s s # undoStack s,
                        text_s := take (selectionStart e) (text_s s)
                                  @ [NL] @ indent @ next @ sp
                                  @ drop (selectionStart e) (text_s s) \<rparr>,
             defaultPrevented = True,
             caret = Some (selectionStart e + 1 + length indent + length next + length sp) \<rparr>"
proof -
  have line: "getCurrentLine (text_s s) (selectionStart e) = indent @ marker @ sp @ rest"
    using caret_line(2) [OF assms(3,4,5,6,7,8)] .
  from assms(14) show ?thesis
  proof
    assume "\<exists>b. marker = [b] \<and> is_bullet b \<and> next = [b]"
    then obtain b where b: "marker = [b]" "is_bullet b" "next = [b]" by blast
    have "getCurrentLine (text_s s) (selectionStart e) = indent @ b # sp @ rest"
      using line b by simp
    from enter_bullet_item [OF assms(1,2) this assms(9) b(2) assms(10,11)] assms(12,13)
    show ?thesis by (simp add: prevented_def continueBulletList_result b)
  next
    assume "\<exists>ds. marker = ds @ [46] \<and> ds \<noteq> [] \<and> list_all is_digit ds \<and>
                 digitsValue ds < 2 ^ 53 \<and> next = decimal (digitsValue ds + 1) @ [46]"
    then obtain ds where ds: "marker = ds @ [46]" "ds \<noteq> []" "list_all is_digit ds"
        "digitsValue ds < 2 ^ 53" "next = decimal (digitsValue ds + 1) @ [46]" by blast
    have "getCurrentLine (text_s s) (selectionStart e) = indent @ ds @ 46 # sp @ rest"
      using line ds by simp
    from enter_number_item [OF assms(1,2) this assms(9) ds(2,3) assms(10,11)] assms(12,13)
    show ?thesis
      by (simp add: prevented_def continueNumberedList_result plusOne_parseInt [OF ds(4)] ds(5))
  qed
qed

theorem enter_on_list_item_continues_witness:
  "text_s (init\<lparr> text_s := js ''x'' @ [NL] @ js ''2. second item'' @ [NL] @ js ''y'' \<rparr>)
     = (js ''x'' @ [NL]) @ ([] @ js ''2.'' @ js '' '' @ js ''second item'') @ ([NL] @ js ''y'') \<and>
   NL \<notin> set ([] @ js ''2.'' @ js '' '' @ js ''second item'') \<and>
   last (js ''x'' @ [NL]) = NL \<and> hd ([NL] @ js ''y'') = NL \<and>
   list_all is_space (js '' '') \<and> \<not> is_space (hd (js ''second item'')) \<and>
   list_all is_digit (js ''2'') \<and> digitsValue (js ''2'') < 2 ^ 53 \<and>
   handleKeyDown (Some 16)
       \<lparr> key = js ''Enter'', altKey = False, shiftKey = False, selectionStart = 16 \<rparr>
       (init\<lparr> text_s := js ''x'' @ [NL] @ js ''2. second item'' @ [NL] @ js ''y'' \<rparr>)
     = \<lparr> state = init\<lparr> undoStack := [js ''x'' @ [NL] @ js ''2. second item'' @ [NL] @ js ''y''],
                         text_s := js ''x'' @ [NL] @ js ''2. second item'' @ [NL] @ js ''3. ''
                                   @ [NL] @ js ''y'' \<rparr>,
         defaultPrevented = True, caret = Some 20 \<rparr> \<and>
   handleKeyDown (Some 14)
       \<lparr> key = js ''Enter'', altKey = False, shiftKey = False, selectionStart = 14 \<rparr>
       (init\<lparr> text_s := js ''2. second item'' \<rparr>)
     = \<lparr> state = init\<lparr> undoStack := [js ''2. second item''],
                         text_s := js ''2. second item'' @ [NL] @ js ''3. '' \<rparr>,
         defaultPrevented = True, caret = Some 18 \<rparr> \<and>
   is_bullet 45 \<and> \<not> is_space (hd (js ''item one'')) \<and>
   handleKeyDown (Some 10)
       \<lparr> key = js ''Enter'', altKey = False, shiftKey = False, selectionStart = 10 \<rparr>
       (init\<lparr> text_s := js ''- item one'' \<rparr>)
     = \<lparr> state = init\<lparr> undoStack := [js ''- item one''],
                         text_s := js ''- item one'' @ [NL] @ js ''- '' \<rparr>,
         defaultPrevented = True, caret = Some 13 \<rparr>"
proof -
  let ?e = "\<lparr> key = js ''Enter'', altKey = False, shiftKey = False, selectionStart = 16 \<rparr>"
  let ?s = "init\<lparr> text_s := js ''x'' @ [NL] @ js ''2. second item'' @ [NL] @ js ''y'' \<rparr>"
  let ?e1 = "\<lparr> key = js ''Enter'', altKey = False, shiftKey = False, selectionStart = 14 \<rparr>"
  let ?s1 = "init\<lparr> text_s := js ''2. second item'' \<rparr>"
  let ?e2 = "\<lparr> key = js ''Enter'', altKey = False, shiftKey = False, selectionStart = 10 \<rparr>"
  let ?s2 = "init\<lparr> text_s := js ''- item one'' \<rparr>"
  have t: "text_s ?s = (js ''x'' @ [NL]) @ ([] @ js ''2.'' @ js '' '' @ js ''second item'') @ ([NL] @ js ''y'')"
    by (simp add: js_def)
  have t1: "text_s ?s1 = [] @ ([] @ js ''2.'' @ js '' '' @ js ''second item'') @ []"
    by (simp add: js_def)
  have t2: "text_s ?s2 = [] @ ([] @ js ''-'' @ js '' '' @ js ''item one'') @ []"
    by (simp add: js_def)
  have nl: "NL \<notin> set ([] @ js ''2.'' @ js '' '' @ js ''second item'')"
    by (simp add: js_def NL_def)
  have nl2: "NL \<notin> set ([] @ js ''-'' @ js '' '' @ js ''item one'')"
    by (simp add: js_def NL_def)
  have sp: "list_all is_space (js '' '')" "js '' '' \<noteq> []" by (simp_all add: js_def is_space_def)
  have r: "\<not> is_space (hd (js ''second item''))" "js ''second item'' \<noteq> []"
    by (simp_all add: js_def is_space_def)
  have r2: "\<not> is_space (hd (js ''item one''))" "js ''item one'' \<noteq> []"
    by (simp_all add: js_def is_space_def)
  have d: "list_all is_digit (js ''2'')" by (simp add: js_def is_digit_def)
  have v: "digitsValue (js ''2'') = 2" by (simp add: digitsValue_def js_def)
  have dec: "decimal 3 = js ''3''" by (simp add: decimal.simps js_def)
  have b: "is_bullet 45" by (simp add: is_bullet_def)
  have m: "(\<exists>b. js ''2.'' = [b] \<and> is_bullet b \<and> js ''3.'' = [b]) \<or>
           (\<exists>ds. js ''2.'' = ds @ [46] \<and> ds \<noteq> [] \<and> list_all is_digit ds \<and>
               digitsValue ds < 2 ^ 53 \<and> js ''3.'' = decimal (digitsValue ds + 1) @ [46])"
  proof (rule disjI2, rule exI [of _ "js ''2''"])
    show "js ''2.'' = js ''2'' @ [46] \<and> js ''2'' \<noteq> [] \<and> list_all is_digit (js ''2'') \<and>
          digitsValue (js ''2'') < 2 ^ 53 \<and> js ''3.'' = decimal (digitsValue (js ''2'') + 1) @ [46]"
      using d by (simp add: v dec) (simp add: js_def)
  qed
  have m2: "(\<exists>b. js ''-'' = [b] \<and> is_bullet b \<and> js ''-'' = [b]) \<or>
           (\<exists>ds. js ''-'' = ds @ [46] \<and> ds \<noteq> [] \<and> list_all is_digit ds \<and>
               digitsValue ds < 2 ^ 53 \<and> js ''-'' = decimal (digitsValue ds + 1) @ [46])"
    using b by (simp add: js_def)
  have h: "handleKeyDown (Some 16) ?e ?s =
      \<lparr> state = ?s\<lparr> undoStack := text_s ?s # undoStack ?s,
                     text_s := take (selectionStart ?e) (text_s ?s) @ [NL] @ [] @ js ''3.'' @ js '' ''
                               @ drop (selectionStart ?e) (text_s ?s) \<rparr>,
        defaultPrevented = True,
        caret = Some (selectionStart ?e + 1 + length ([]::jsstring) + length (js ''3.'') + length (js '' '')) \<rparr>"
    using enter_on_list_item_continues
      [of ?e ?s "js ''x'' @ [NL]" "[]" "js ''2.''" "js '' ''" "js ''second item''" "[NL] @ js ''y''"
          "js ''3.''" "Some 16",
       OF _ _ t nl _ _ _ _ _ sp(2) sp(1) r(2) r(1) m]
    by (simp add: js_def)
  have h1: "handleKeyDown (Some 14) ?e1 ?s1 =
      \<lparr> state = ?s1\<lparr> undoStack := text_s ?s1 # undoStack ?s1,
                     text_s := take (selectionStart ?e1) (text_s ?s1) @ [NL] @ [] @ js ''3.'' @ js '' ''
                               @ drop (selectionStart ?e1) (text_s ?s1) \<rparr>,
        defaultPrevented = True,
        caret = Some (selectionStart ?e1 + 1 + length ([]::jsstring) + length (js ''3.'') + length (js '' '')) \<rparr>"
    using enter_on_list_item_continues
      [of ?e1 ?s1 "[]" "[]" "js ''2.''" "js '' ''" "js ''second item''" "[]" "js ''3.''" "Some 14",
       OF _ _ t1 nl _ _ _ _ _ sp(2) sp(1) r(2) r(1) m]
    by (simp add: js_def)
  have h2: "handleKeyDown (Some 10) ?e2 ?s2 =
      \<lparr> state = ?s2\<lparr> undoStack := text_s ?s2 # undoStack ?s2,
                     text_s := take (selectionStart ?e2) (text_s ?s2) @ [NL] @ [] @ js ''-'' @ js '' ''
                               @ drop (selectionStart ?e2) (text_s ?s2) \<rparr>,
        defaultPrevented = True,
        caret = Some (selectionStart ?e2 + 1 + length ([]::jsstring) + length (js ''-'') + length (js '' '')) \<rparr>"
    using enter_on_list_item_continues
      [of ?e2 ?s2 "[]" "[]" "js ''-''" "js '' ''" "js ''item one''" "[]" "js ''-''" "Some 10",
       OF _ _ t2 nl2 _ _ _ _ _ sp(2) sp(1) r2(2) r2(1) m2]
    by (simp add: js_def)
  show ?thesis
    unfolding h h1 h2 using nl sp(1) r(1) d v b r2(1) by (simp add: init_def js_def)
qed

theorem enter_after_2_53_counterexample:
  "text_s (state (handleKeyDown (Some 19)
       \<lparr> key = js ''Enter'', altKey = False, shiftKey = False, selectionStart = 19 \<rparr>
       (init\<lparr> text_s := js ''9007199254740992. x'' \<rparr>)))
     = js ''9007199254740992. x'' @ [NL] @ js ''9007199254740992. '' \<and>
   text_s (state (handleKeyDown (Some 19)
       \<lparr> key = js ''Enter'', altKey = False, shiftKey = False, selectionStart = 19 \<rparr>
       (init\<lparr> text_s := js ''9007199254740992. x'' \<rparr>)))
     \<noteq> js ''9007199254740992. x'' @ [NL] @ js ''9007199254740993. ''"
proof -
  let ?e = "\<lparr> key = js ''Enter'', altKey = False, shiftKey = False, selectionStart = 19 \<rparr>"
  let ?s = "init\<lparr> text_s := js ''9007199254740992. x'' \<rparr>"
  have t: "js ''9007199254740992. x'' = [] @ ([] @ js ''9007199254740992'' @ 46 # js '' '' @ js ''x'') @ []"
    by (simp add: js_def)
  have nl: "NL \<notin> set ([] @ js ''9007199254740992'' @ 46 # js '' '' @ js ''x'')"
    by (simp add: js_def NL_def)
  have "getCurrentLine (js ''9007199254740992. x'') 19
          = [] @ js ''9007199254740992'' @ 46 # js '' '' @ js ''x''"
    by (rule caret_line(2) [OF t nl]) (simp_all add: js_def)
  then have l: "getCurrentLine (text_s ?s) (selectionStart ?e)
                  = [] @ js ''9007199254740992'' @ 46 # js '' '' @ js ''x''"
    by simp
  have d: "list_all is_digit (js ''9007199254740992'')" by (simp add: js_def is_digit_def)
  have sp: "list_all is_space (js '' '')" by (simp add: js_def is_space_def)
  have r: "js ''x'' = [] \<or> \<not> is_space (hd (js ''x''))" by (simp add: js_def is_space_def)
  have ne: "js ''9007199254740992'' \<noteq> []" "js '' '' \<noteq> []" "js ''x'' \<noteq> []"
    by (simp_all add: js_def)
  from enter_number_item [of ?e ?s "[]" "js ''9007199254740992''" "js '' ''" "js ''x''" "Some 19",
      OF _ _ l _ ne(1) d ne(2) sp r] ne(3)
  have "text_s (state (handleKeyDown (Some 19) ?e ?s))
          = js ''9007199254740992. x'' @ [NL] @ js ''9007199254740992. ''"
    by (simp add: prevented_def continueNumberedList_result plusOne_2_53) (simp add: js_def)
  then show ?thesis
    by (simp add: js_def)
qed

section \<open>Properties of the obfuscation\<close>



end
